theory Spec2Isabelle
  imports Main
begin

section \<open>The process wrapper of reliable-mcp (src/process-wrapper.ts)\<close>

text \<open>
  The class \<open>ProcessWrapper\<close> supervises one child process. Its methods run on the
  single thread of the host's event loop, so an execution is a sequence of callbacks:
  calls of the public methods, listeners of the host process, expired timers, the
  callback of tree-kill and the events of the child. Each callback is a function on the
  state below; the answers of the runtime (what \<open>spawn\<close> returned, whether a signal was
  delivered) come with the event that asks for them.
\<close>

subsection \<open>Data\<close>

datatype signal = SIGINT | SIGTERM | SIGHUP | SIGBREAK | SIGKILL | SIGQUIT | SIGUSR1 | SIGUSR2

text \<open>The interface \<open>WrapperOptions\<close>; an optional field is an \<open>option\<close>.\<close>

record WrapperOptions =
  command :: string
  args :: "string list option"
  cwd :: "string option"
  env :: "(string \<times> string) list option"
  windowsHide :: "bool option"
  detached :: "bool option"
  shell :: "(bool + string) option"
  timeout :: "int option"
  label :: "string option"
  verbose :: "bool option"

text \<open>
  What the wrapper reads of a \<open>ChildProcess\<close>: \<open>pid\<close> (undefined when the process could
  not be created) and \<open>killed\<close> (set by \<open>kill\<close> once a signal has been delivered).
\<close>

record child_process =
  cp_pid :: "nat option"
  cp_killed :: bool

datatype promise = Pending | Resolved int

text \<open>
  The closures that \<open>setupCleanupHandlers\<close> creates, each with the number of the call
  that created it (two calls create different function objects), and the listeners that
  other code has put on the host process.
\<close>

datatype handler_kind = SignalHandler signal | ExceptionHandler | ExitHandler

datatype listener = Own handler_kind nat | Foreign nat

datatype proc_event = OnSignal signal | OnUncaughtException | OnExit

type_synonym registration = "proc_event \<times> listener"

text \<open>
  The four \<open>setTimeout\<close> callbacks of the class: the timeout of \<open>start\<close> (line 94), the
  forced exit of a signal handler (line 120), the exit after an uncaught exception
  (line 135) and the forced kill of \<open>terminate\<close> (line 177).
\<close>

datatype timer = TimeoutTimer | ForceExitTimer | ExceptionExitTimer | ForceKillTimer

text \<open>
  The calls that kill, by the place that makes them: \<open>treeKill\<close> (line 161), and
  \<open>child.kill\<close> in \<open>terminate\<close> (line 174), in the callback of tree-kill (line 166) and
  in the forced-kill timer (line 179).
\<close>

datatype kill_site = Graceful | TreeKillFallback | GraceTimer

datatype kill_call = TreeKill nat signal | ChildKill kill_site signal

datatype level = LInfo | LError | LDebug

datatype stream = Stdout | Stderr

datatype message =
    StartingProcess
  | ProcessError
  | ProcessExited "int option" "signal option"
  | ProcessTimeout
  | ReceivedSignal signal
  | UncaughtException
  | TerminatingTree nat
  | TreeKillError
  | TerminateError

datatype exn = AlreadyStarted | SpawnError | KillError

text \<open>What the runtime answers: to \<open>spawn\<close>, and to \<open>kill\<close> and \<open>treeKill\<close>.\<close>

datatype spawn_outcome = SpawnOk nat | SpawnFails | SpawnThrows

datatype kill_outcome = KillSent | KillNotSent | KillThrows

text \<open>
  The fields of the class, then what it shares with the host process (its listeners,
  the pending timers and tree-kill callbacks, whether \<open>process.exit\<close> has run), then
  the record of what the wrapper did to the outside: closures created, processes
  spawned, kill calls, \<open>removeListener\<close> calls and console lines.
\<close>

record wrapper =
  options :: WrapperOptions
  child :: "child_process option"
  isWindows :: bool
  cleanupHandlers :: "registration list"
  exitPromise :: "promise option"
  terminated :: bool
  listeners :: "registration list"
  timers :: "timer list"
  treeKillPending :: nat
  hostExit :: "int option"
  closures :: nat
  spawns :: nat
  kills :: "kill_call list"
  removed :: "registration list"
  console :: "(stream \<times> bool \<times> message) list"

text \<open>
  A method that can throw returns \<open>Inl\<close> of the exception and the state at the throw,
  or \<open>Inr\<close> of the state at its return.
\<close>

type_synonym result = "(exn \<times> wrapper) + wrapper"

text \<open>The state a call leaves behind, whether it returned or threw.\<close>

definition state_of :: "result \<Rightarrow> wrapper" where
  "state_of r = (case r of Inl (e, s) \<Rightarrow> s | Inr s \<Rightarrow> s)"

subsection \<open>The constructor and \<open>log\<close>\<close>

text \<open>
  \<open>new o w fs\<close>: the wrapper built from the options \<open>o\<close> on a host that is Windows or
  not (\<open>w\<close>), whose process already has the listeners \<open>fs\<close> of other code.
\<close>

definition new :: "WrapperOptions \<Rightarrow> bool \<Rightarrow> (proc_event \<times> nat) list \<Rightarrow> wrapper" where
  "new opts w fs =
     \<lparr>options = opts, child = None, isWindows = w, cleanupHandlers = [],
      exitPromise = None, terminated = False,
      listeners = map (\<lambda>(ev, n). (ev, Foreign n)) fs, timers = [], treeKillPending = 0,
      hostExit = None, closures = 0, spawns = 0, kills = [], removed = [], console = []\<rparr>"

definition is_verbose :: "wrapper \<Rightarrow> bool" where
  "is_verbose s = (case verbose (options s) of None \<Rightarrow> False | Some b \<Rightarrow> b)"

text \<open>A console line: the stream, whether it carries the [DEBUG] tag, the message.\<close>

definition log :: "message \<Rightarrow> level \<Rightarrow> wrapper \<Rightarrow> wrapper" where
  "log m lv s =
     (if is_verbose s \<or> lv = LError then
        (if lv = LError then s\<lparr>console := console s @ [(Stderr, False, m)]\<rparr>
         else if lv = LDebug \<and> is_verbose s then s\<lparr>console := console s @ [(Stdout, True, m)]\<rparr>
         else s\<lparr>console := console s @ [(Stdout, False, m)]\<rparr>)
      else s)"

definition setTimeout :: "timer \<Rightarrow> wrapper \<Rightarrow> wrapper" where
  "setTimeout t s = s\<lparr>timers := timers s @ [t]\<rparr>"

subsection \<open>The runtime's kill calls\<close>

text \<open>
  \<open>ChildProcess.kill\<close> of the runtime: it sets \<open>killed\<close> and returns true when the signal
  was delivered, returns false when it was not, and throws when the platform refuses
  the signal. \<open>this.child?.kill\<close> on a null child does nothing.
\<close>

definition child_kill :: "kill_outcome \<Rightarrow> kill_site \<Rightarrow> signal \<Rightarrow> wrapper \<Rightarrow> result" where
  "child_kill k site sg s =
     (case child s of
        None \<Rightarrow> Inr s
      | Some c \<Rightarrow>
          (let s1 = s\<lparr>kills := kills s @ [ChildKill site sg]\<rparr> in
           case k of
             KillSent \<Rightarrow> Inr (s1\<lparr>child := Some (c\<lparr>cp_killed := True\<rparr>)\<rparr>)
           | KillNotSent \<Rightarrow> Inr s1
           | KillThrows \<Rightarrow> Inl (KillError, s1)))"

text \<open>\<open>treeKill(pid, signal, callback)\<close>: the callback runs later, with an error or not.\<close>

definition treeKill :: "kill_outcome \<Rightarrow> nat \<Rightarrow> signal \<Rightarrow> wrapper \<Rightarrow> result" where
  "treeKill k p sg s =
     (let s1 = s\<lparr>kills := kills s @ [TreeKill p sg]\<rparr> in
      case k of
        KillThrows \<Rightarrow> Inl (KillError, s1)
      | _ \<Rightarrow> Inr (s1\<lparr>treeKillPending := Suc (treeKillPending s1)\<rparr>))"

subsection \<open>\<open>terminate\<close>\<close>

text \<open>The body of the \<open>try\<close> block, lines 159 to 182.\<close>

definition terminate_try :: "kill_outcome \<Rightarrow> signal \<Rightarrow> nat \<Rightarrow> wrapper \<Rightarrow> result" where
  "terminate_try k sg p s =
     (if isWindows s then treeKill k p SIGTERM s
      else (case child_kill k Graceful sg s of
              Inl e \<Rightarrow> Inl e
            | Inr s1 \<Rightarrow> Inr (setTimeout ForceKillTimer s1)))"

text \<open>
  \<open>terminate(signal)\<close>, lines 150 to 186. \<open>!this.child.pid\<close> holds for an undefined pid
  and for the pid 0.
\<close>

definition terminate :: "kill_outcome \<Rightarrow> signal \<Rightarrow> wrapper \<Rightarrow> result" where
  "terminate k sg s =
     (if terminated s then Inr s
      else case child s of
        None \<Rightarrow> Inr s
      | Some c \<Rightarrow>
          (case cp_pid c of
             None \<Rightarrow> Inr s
           | Some p \<Rightarrow>
               if p = 0 then Inr s
               else (let s1 = log (TerminatingTree p) LInfo (s\<lparr>terminated := True\<rparr>) in
                     case terminate_try k sg p s1 of
                       Inl (e, s2) \<Rightarrow> Inr (log TerminateError LError s2)
                     | Inr s2 \<Rightarrow> Inr s2)))"

text \<open>The state after a call of \<open>terminate\<close> from a callback.\<close>

definition terminate_st :: "kill_outcome \<Rightarrow> signal \<Rightarrow> wrapper \<Rightarrow> wrapper" where
  "terminate_st k sg s = state_of (terminate k sg s)"

text \<open>The callback given to \<open>treeKill\<close>, lines 161 to 171.\<close>

definition treeKillCallback :: "kill_outcome \<Rightarrow> bool \<Rightarrow> wrapper \<Rightarrow> wrapper" where
  "treeKillCallback k err s =
     (if err then
        state_of (child_kill k TreeKillFallback SIGKILL (log TreeKillError LError s))
      else s)"

subsection \<open>The cleanup handlers\<close>

definition signals :: "bool \<Rightarrow> signal list" where
  "signals w = [SIGINT, SIGTERM, SIGHUP] @ (if w then [SIGBREAK] else [])"

text \<open>The registrations of the \<open>g\<close>-th call of \<open>setupCleanupHandlers\<close>, in its order.\<close>

definition own_registrations :: "bool \<Rightarrow> nat \<Rightarrow> registration list" where
  "own_registrations w g =
     map (\<lambda>sg. (OnSignal sg, Own (SignalHandler sg) g)) (signals w)
     @ [(OnUncaughtException, Own ExceptionHandler g), (OnExit, Own ExitHandler g)]"

text \<open>
  \<open>setupCleanupHandlers\<close>, lines 106 to 148: each handler is put on the process and its
  remover is pushed on \<open>cleanupHandlers\<close>; a remover is the registration it removes.
\<close>

definition setupCleanupHandlers :: "wrapper \<Rightarrow> wrapper" where
  "setupCleanupHandlers s =
     (let rs = own_registrations (isWindows s) (closures s) in
      s\<lparr>listeners := listeners s @ rs,
        cleanupHandlers := cleanupHandlers s @ rs,
        closures := Suc (closures s)\<rparr>)"

text \<open>What each listener does when the host process emits its event.\<close>

fun invoke :: "kill_outcome \<Rightarrow> listener \<Rightarrow> wrapper \<Rightarrow> wrapper" where
  "invoke k (Foreign n) s = s"
| "invoke k (Own (SignalHandler sg) g) s =
     setTimeout ForceExitTimer (terminate_st k SIGTERM (log (ReceivedSignal sg) LInfo s))"
| "invoke k (Own ExceptionHandler g) s =
     setTimeout ExceptionExitTimer (terminate_st k SIGTERM (log UncaughtException LError s))"
| "invoke k (Own ExitHandler g) s = terminate_st k SIGTERM s"

text \<open>The listeners of an event, in the order of their registration.\<close>

definition listeners_of :: "proc_event \<Rightarrow> wrapper \<Rightarrow> listener list" where
  "listeners_of ev s = map snd (filter (\<lambda>r. fst r = ev) (listeners s))"

definition emit :: "kill_outcome \<Rightarrow> proc_event \<Rightarrow> wrapper \<Rightarrow> wrapper" where
  "emit k ev s = foldl (\<lambda>s1 l. invoke k l s1) s (listeners_of ev s)"

text \<open>\<open>process.exit(code)\<close>: the exit listeners run, then the host process is gone.\<close>

definition processExit :: "kill_outcome \<Rightarrow> int \<Rightarrow> wrapper \<Rightarrow> wrapper" where
  "processExit k code s = (emit k OnExit s)\<lparr>hostExit := Some code\<rparr>"

text \<open>
  \<open>process.removeListener\<close> takes the most recently added instance of the listener away.
\<close>

definition removeListener :: "registration \<Rightarrow> registration list \<Rightarrow> registration list" where
  "removeListener r ls = rev (remove1 r (rev ls))"

text \<open>\<open>cleanup\<close>, lines 188 to 193.\<close>

definition cleanup :: "wrapper \<Rightarrow> wrapper" where
  "cleanup s =
     s\<lparr>listeners := foldl (\<lambda>ls r. removeListener r ls) (listeners s) (cleanupHandlers s),
       removed := removed s @ cleanupHandlers s,
       cleanupHandlers := [],
       child := None,
       terminated := True\<rparr>"

subsection \<open>\<open>start\<close> and the events of the child\<close>

text \<open>\<open>code || 0\<close>: null and 0 are falsy.\<close>

definition code_or_0 :: "int option \<Rightarrow> int" where
  "code_or_0 code = (case code of None \<Rightarrow> 0 | Some c \<Rightarrow> if c = 0 then 0 else c)"

text \<open>Resolving a promise that is already resolved changes nothing.\<close>

definition resolve :: "int \<Rightarrow> wrapper \<Rightarrow> wrapper" where
  "resolve c s =
     (case exitPromise s of Some Pending \<Rightarrow> s\<lparr>exitPromise := Some (Resolved c)\<rparr> | _ \<Rightarrow> s)"

text \<open>The listener of the child's \<open>exit\<close> event, lines 86 to 90.\<close>

definition onChildExit :: "int option \<Rightarrow> signal option \<Rightarrow> wrapper \<Rightarrow> wrapper" where
  "onChildExit code sg s = resolve (code_or_0 code) (cleanup (log (ProcessExited code sg) LDebug s))"

text \<open>The listener of the child's \<open>error\<close> event, lines 63 to 65.\<close>

definition onChildError :: "wrapper \<Rightarrow> wrapper" where
  "onChildError s = log ProcessError LError s"

text \<open>\<open>if (this.options.timeout)\<close>: undefined and 0 are falsy.\<close>

definition has_timeout :: "wrapper \<Rightarrow> bool" where
  "has_timeout s = (case timeout (options s) of None \<Rightarrow> False | Some t \<Rightarrow> t \<noteq> 0)"

text \<open>The executor of the exit promise, lines 80 to 101.\<close>

definition createExitPromise :: "wrapper \<Rightarrow> wrapper" where
  "createExitPromise s =
     (case child s of
        None \<Rightarrow> s\<lparr>exitPromise := Some (Resolved (- 1))\<rparr>
      | Some c \<Rightarrow>
          (let s1 = s\<lparr>exitPromise := Some Pending\<rparr> in
           if has_timeout s1 then setTimeout TimeoutTimer s1 else s1))"

text \<open>
  \<open>start\<close>, lines 46 to 104, up to the return of the promise. \<open>spawn\<close> returns a child
  with a pid, or a child without one (its \<open>error\<close> event follows), or throws. The title
  of the host process (lines 68 to 74) is not part of the state.
\<close>

definition start :: "spawn_outcome \<Rightarrow> wrapper \<Rightarrow> result" where
  "start sp s =
     (if child s \<noteq> None then Inl (AlreadyStarted, s)
      else (let s1 = (log StartingProcess LDebug s)\<lparr>spawns := Suc (spawns s)\<rparr> in
            case sp of
              SpawnThrows \<Rightarrow> Inl (SpawnError, s1)
            | SpawnFails \<Rightarrow>
                Inr (createExitPromise (setupCleanupHandlers
                       (s1\<lparr>child := Some \<lparr>cp_pid = None, cp_killed = False\<rparr>\<rparr>)))
            | SpawnOk p \<Rightarrow>
                Inr (createExitPromise (setupCleanupHandlers
                       (s1\<lparr>child := Some \<lparr>cp_pid = Some p, cp_killed = False\<rparr>\<rparr>)))))"

text \<open>The getters \<open>pid\<close> and \<open>killed\<close>, lines 195 to 201.\<close>

definition pid :: "wrapper \<Rightarrow> nat option" where
  "pid s = (case child s of None \<Rightarrow> None | Some c \<Rightarrow> cp_pid c)"

definition killed :: "wrapper \<Rightarrow> bool" where
  "killed s = (terminated s \<or> (case child s of None \<Rightarrow> False | Some c \<Rightarrow> cp_killed c))"

subsection \<open>Timers and the event loop\<close>

text \<open>
  The four timer callbacks. An exception thrown by the forced kill has no handler in
  the callback: the host process emits \<open>uncaughtException\<close>.
\<close>

fun fire :: "kill_outcome \<Rightarrow> timer \<Rightarrow> wrapper \<Rightarrow> wrapper" where
  "fire k TimeoutTimer s =
     (if \<not> terminated s \<and> child s \<noteq> None
      then terminate_st k SIGTERM (log ProcessTimeout LError s) else s)"
| "fire k ForceExitTimer s = (if \<not> terminated s then processExit k 0 s else s)"
| "fire k ExceptionExitTimer s = processExit k 1 s"
| "fire k ForceKillTimer s =
     (case child s of
        None \<Rightarrow> s
      | Some c \<Rightarrow>
          if \<not> cp_killed c
          then (case child_kill k GraceTimer SIGKILL s of
                  Inl (e, s1) \<Rightarrow> emit k OnUncaughtException s1
                | Inr s1 \<Rightarrow> s1)
          else s)"

text \<open>
  What can happen: a call of \<open>start\<close> or \<open>terminate\<close> from outside, a signal, an uncaught
  exception or the exit of the host process, the \<open>n\<close>-th pending timer expiring, the
  callback of tree-kill, and the \<open>exit\<close> and \<open>error\<close> events of the child.
\<close>

datatype event =
    CallStart spawn_outcome
  | CallTerminate signal kill_outcome
  | HostSignal signal kill_outcome
  | HostUncaught kill_outcome
  | HostExit int kill_outcome
  | TimerFires nat kill_outcome
  | TreeKillDone bool kill_outcome
  | ChildExit "int option" "signal option"
  | ChildError

fun dispatch :: "event \<Rightarrow> wrapper \<Rightarrow> wrapper" where
  "dispatch (CallStart sp) s = state_of (start sp s)"
| "dispatch (CallTerminate sg k) s = terminate_st k sg s"
| "dispatch (HostSignal sg k) s = emit k (OnSignal sg) s"
| "dispatch (HostUncaught k) s = emit k OnUncaughtException s"
| "dispatch (HostExit code k) s = processExit k code s"
| "dispatch (TimerFires n k) s =
     (if n < length (timers s)
      then fire k (timers s ! n) (s\<lparr>timers := take n (timers s) @ drop (Suc n) (timers s)\<rparr>)
      else s)"
| "dispatch (TreeKillDone err k) s =
     (if 0 < treeKillPending s
      then treeKillCallback k err (s\<lparr>treeKillPending := treeKillPending s - 1\<rparr>)
      else s)"
| "dispatch (ChildExit code sg) s = (if child s \<noteq> None then onChildExit code sg s else s)"
| "dispatch ChildError s = (if child s \<noteq> None then onChildError s else s)"

text \<open>Nothing runs once the host process has exited.\<close>

definition step :: "event \<Rightarrow> wrapper \<Rightarrow> wrapper" where
  "step e s = (if hostExit s \<noteq> None then s else dispatch e s)"

fun run :: "wrapper \<Rightarrow> event list \<Rightarrow> wrapper" where
  "run s [] = s"
| "run s (e # es) = run (step e s) es"

text \<open>The kill calls that begin a kill sequence: those of \<open>terminate\<close> itself.\<close>

fun initiates :: "kill_call \<Rightarrow> bool" where
  "initiates (TreeKill p sg) = True"
| "initiates (ChildKill site sg) = (site = Graceful)"

definition initiations :: "wrapper \<Rightarrow> kill_call list" where
  "initiations s = filter initiates (kills s)"

subsection \<open>Concrete inputs\<close>

text \<open>The options of the test "should execute a simple command".\<close>

definition echo_options :: WrapperOptions where
  "echo_options =
     \<lparr>command = ''echo'', args = Some [''test''], cwd = None, env = None,
      windowsHide = None, detached = None, shell = None, timeout = None,
      label = None, verbose = Some False\<rparr>"

text \<open>A wrapper on Unix and one on Windows, each with a child of pid 100 running.\<close>

definition unix_running :: wrapper where
  "unix_running = run (new echo_options False []) [CallStart (SpawnOk 100)]"

definition windows_running :: wrapper where
  "windows_running = run (new echo_options True []) [CallStart (SpawnOk 100)]"

text \<open>The options of the test "should handle timeout option".\<close>

definition sleep_options :: WrapperOptions where
  "sleep_options =
     \<lparr>command = ''sleep'', args = Some [''10''], cwd = None, env = None,
      windowsHide = None, detached = None, shell = None, timeout = Some 500,
      label = None, verbose = Some False\<rparr>"

text \<open>The options of the test "should handle invalid commands".\<close>

definition bad_options :: WrapperOptions where
  "bad_options =
     \<lparr>command = ''this-command-does-not-exist-12345'', args = Some [], cwd = None,
      env = None, windowsHide = None, detached = None, shell = None, timeout = None,
      label = None, verbose = Some False\<rparr>"

text \<open>A Unix wrapper whose running child, of pid 100, ignores SIGTERM.\<close>

definition stubborn_options :: WrapperOptions where
  "stubborn_options =
     \<lparr>command = ''sh'', args = Some [''-c'', ''trap : TERM; sleep 60''], cwd = None,
      env = None, windowsHide = None, detached = None, shell = None, timeout = None,
      label = None, verbose = Some False\<rparr>"

definition stubborn_running :: wrapper where
  "stubborn_running = run (new stubborn_options False []) [CallStart (SpawnOk 100)]"

text \<open>The Unix wrapper after its child has exited with code 0.\<close>

definition unix_exited :: wrapper where
  "unix_exited = run unix_running [ChildExit (Some 0) None]"

text \<open>A Unix wrapper with a timeout of 500 ms and a child of pid 100 running.\<close>

definition sleep_running :: wrapper where
  "sleep_running = run (new sleep_options False []) [CallStart (SpawnOk 100)]"

text \<open>
  A Windows wrapper with a child of pid 100 running, on a host process where other
  code listens to SIGINT.
\<close>

definition guarded_running :: wrapper where
  "guarded_running = run (new echo_options True [(OnSignal SIGINT, 7)]) [CallStart (SpawnOk 100)]"

subsection \<open>Predicates of the proofs\<close>

text \<open>\<open>terminate\<close> returns at once when the latch is set or there is no pid to kill.\<close>

definition blocked :: "wrapper \<Rightarrow> bool" where
  "blocked s = (terminated s \<or> pid s = None \<or> pid s = Some 0)"

text \<open>
  \<open>frame s t\<close>: what holds between the state before and the state after every callback
  but \<open>start\<close> and the child's exit listener.
\<close>

definition frame :: "wrapper \<Rightarrow> wrapper \<Rightarrow> bool" where
  "frame s t =
     (options t = options s \<and> isWindows t = isWindows s \<and>
      cleanupHandlers t = cleanupHandlers s \<and> exitPromise t = exitPromise s \<and>
      listeners t = listeners s \<and> closures t = closures s \<and>
      removed t = removed s \<and> pid t = pid s \<and>
      (child t = None \<longleftrightarrow> child s = None) \<and>
      (terminated s \<longrightarrow> terminated t) \<and>
      (blocked s \<longrightarrow> initiations t = initiations s) \<and>
      (\<not> terminated t \<longrightarrow> initiations t = initiations s) \<and>
      length (initiations t) \<le> Suc (length (initiations s)))"

text \<open>Every event but a call of \<open>start\<close> and the exit of the child is such a callback.\<close>

fun lifecycle :: "event \<Rightarrow> bool" where
  "lifecycle (CallStart sp) = True"
| "lifecycle (ChildExit code sg) = True"
| "lifecycle e = False"

text \<open>Every registration that \<open>setupCleanupHandlers\<close> has made so far, in order.\<close>

definition registered :: "wrapper \<Rightarrow> registration list" where
  "registered s = concat (map (own_registrations (isWindows s)) [0..<closures s])"

fun foreign :: "registration \<Rightarrow> bool" where
  "foreign (ev, Foreign n) = True"
| "foreign (ev, Own h g) = False"

text \<open>What holds in every state that the events can reach from a new wrapper.\<close>

definition inv :: "wrapper \<Rightarrow> bool" where
  "inv s =
     ((child s \<noteq> None \<longrightarrow> exitPromise s = Some Pending) \<and>
      (\<forall>c. exitPromise s = Some (Resolved c) \<longrightarrow> terminated s) \<and>
      (child s = None \<longrightarrow> cleanupHandlers s = []) \<and>
      (child s \<noteq> None \<longrightarrow>
         0 < closures s \<and>
         cleanupHandlers s = own_registrations (isWindows s) (closures s - 1)) \<and>
      removed s @ cleanupHandlers s = registered s \<and>
      listeners s = filter foreign (listeners s) @ cleanupHandlers s \<and>
      length (initiations s) \<le> 1 \<and>
      (initiations s \<noteq> [] \<longrightarrow> terminated s))"

text \<open>
  The latch is set, or the child that the wrapper holds has no pid: no later call of
  \<open>terminate\<close> can kill.
\<close>

definition latched :: "wrapper \<Rightarrow> bool" where
  "latched s = (terminated s \<or> (child s \<noteq> None \<and> (pid s = None \<or> pid s = Some 0)))"

section \<open>Lemmas\<close>

text \<open>The equations that evaluate the model on a concrete input.\<close>

lemmas model_defs =
  new_def echo_options_def sleep_options_def bad_options_def stubborn_options_def
  unix_running_def windows_running_def stubborn_running_def unix_exited_def
  sleep_running_def guarded_running_def step_def start_def log_def is_verbose_def
  setupCleanupHandlers_def createExitPromise_def has_timeout_def state_of_def
  own_registrations_def signals_def setTimeout_def terminate_st_def terminate_def
  terminate_try_def child_kill_def treeKill_def treeKillCallback_def emit_def
  listeners_of_def processExit_def removeListener_def cleanup_def onChildExit_def
  onChildError_def code_or_0_def resolve_def pid_def killed_def initiations_def Let_def


subsection \<open>What the callbacks leave unchanged\<close>

lemma log_fields [simp]:
  "options (log m lv s) = options s" "child (log m lv s) = child s"
  "isWindows (log m lv s) = isWindows s" "cleanupHandlers (log m lv s) = cleanupHandlers s"
  "exitPromise (log m lv s) = exitPromise s" "terminated (log m lv s) = terminated s"
  "listeners (log m lv s) = listeners s" "timers (log m lv s) = timers s"
  "treeKillPending (log m lv s) = treeKillPending s" "hostExit (log m lv s) = hostExit s"
  "closures (log m lv s) = closures s" "spawns (log m lv s) = spawns s"
  "kills (log m lv s) = kills s" "removed (log m lv s) = removed s"
  by (simp_all add: log_def)

lemma setTimeout_fields [simp]:
  "options (setTimeout t s) = options s" "child (setTimeout t s) = child s"
  "isWindows (setTimeout t s) = isWindows s" "cleanupHandlers (setTimeout t s) = cleanupHandlers s"
  "exitPromise (setTimeout t s) = exitPromise s" "terminated (setTimeout t s) = terminated s"
  "listeners (setTimeout t s) = listeners s" "timers (setTimeout t s) = timers s @ [t]"
  "treeKillPending (setTimeout t s) = treeKillPending s" "hostExit (setTimeout t s) = hostExit s"
  "closures (setTimeout t s) = closures s" "spawns (setTimeout t s) = spawns s"
  "kills (setTimeout t s) = kills s" "removed (setTimeout t s) = removed s"
  "console (setTimeout t s) = console s"
  by (simp_all add: setTimeout_def)

lemma frame_refl: "frame s s"
  by (simp add: frame_def)

lemma frame_blocked: "frame s t \<Longrightarrow> blocked s \<Longrightarrow> blocked t"
  unfolding frame_def blocked_def by metis

lemma frame_trans:
  assumes st: "frame s t" and tu: "frame t u"
  shows "frame s u"
proof -
  have b: "blocked s \<Longrightarrow> initiations u = initiations s"
    using st tu frame_blocked [OF st] by (simp add: frame_def)
  have n: "\<not> terminated u \<Longrightarrow> initiations u = initiations s"
    using st tu by (simp add: frame_def)
  have l: "length (initiations u) \<le> Suc (length (initiations s))"
  proof (cases "terminated t")
    case True
    then have "initiations u = initiations t"
      using tu by (simp add: frame_def blocked_def)
    then show ?thesis using st by (simp add: frame_def)
  next
    case False
    then have "initiations t = initiations s"
      using st by (simp add: frame_def)
    then show ?thesis using tu by (simp add: frame_def)
  qed
  have e: "options u = options s \<and> isWindows u = isWindows s \<and>
      cleanupHandlers u = cleanupHandlers s \<and> exitPromise u = exitPromise s \<and>
      listeners u = listeners s \<and> closures u = closures s \<and>
      removed u = removed s \<and> pid u = pid s \<and>
      (child u = None \<longleftrightarrow> child s = None) \<and> (terminated s \<longrightarrow> terminated u)"
    using st tu by (simp add: frame_def)
  show ?thesis
    unfolding frame_def using e b n l by blast
qed

lemma frame_log: "frame s (log m lv s)"
  by (simp add: frame_def initiations_def pid_def)

lemma frame_setTimeout: "frame s (setTimeout t s)"
  by (simp add: frame_def initiations_def pid_def)

lemma frame_timers: "frame s (s\<lparr>timers := ts\<rparr>)"
  by (simp add: frame_def initiations_def pid_def)

lemma frame_treeKillPending: "frame s (s\<lparr>treeKillPending := n\<rparr>)"
  by (simp add: frame_def initiations_def pid_def)

lemma frame_hostExit: "frame s (s\<lparr>hostExit := x\<rparr>)"
  by (simp add: frame_def initiations_def pid_def)

lemma frame_child_kill:
  "site \<noteq> Graceful \<Longrightarrow> frame s (state_of (child_kill k site sg s))"
  by (cases k; cases "child s")
     (simp_all add: frame_def child_kill_def state_of_def initiations_def pid_def)

lemma terminate_blocked: "blocked s \<Longrightarrow> terminate k sg s = Inr s"
  by (auto simp: terminate_def blocked_def pid_def split: option.splits)

lemma terminate_active:
  assumes "\<not> terminated s" "child s = Some c" "cp_pid c = Some p" "p \<noteq> 0"
  shows "terminate k sg s =
           (case terminate_try k sg p (log (TerminatingTree p) LInfo (s\<lparr>terminated := True\<rparr>)) of
              Inl (e, s2) \<Rightarrow> Inr (log TerminateError LError s2)
            | Inr s2 \<Rightarrow> Inr s2)"
  using assms by (simp add: terminate_def)

lemma terminate_returns: "terminate k sg s = Inr (terminate_st k sg s)"
  by (simp add: terminate_st_def state_of_def terminate_def split: option.splits sum.splits prod.splits)

lemma frame_terminate_st: "frame s (terminate_st k sg s)"
proof (cases "blocked s")
  case True
  then show ?thesis by (simp add: terminate_st_def terminate_blocked state_of_def frame_refl)
next
  case False
  then obtain c p where a: "\<not> terminated s" "child s = Some c" "cp_pid c = Some p" "p \<noteq> 0"
    by (auto simp: blocked_def pid_def split: option.splits)
  show ?thesis
    unfolding terminate_st_def terminate_active [OF a]
    using a
    by (cases k; cases "isWindows s")
       (simp_all add: frame_def terminate_try_def treeKill_def child_kill_def state_of_def
          initiations_def pid_def blocked_def)
qed

lemma frame_invoke: "frame s (invoke k l s)"
proof (cases l)
  case (Foreign n)
  then show ?thesis by (simp add: frame_refl)
next
  case (Own h g)
  show ?thesis
  proof (cases h)
    case (SignalHandler sg)
    show ?thesis
      unfolding Own SignalHandler invoke.simps
      by (rule frame_trans [OF frame_trans [OF frame_log frame_terminate_st] frame_setTimeout])
  next
    case ExceptionHandler
    show ?thesis
      unfolding Own ExceptionHandler invoke.simps
      by (rule frame_trans [OF frame_trans [OF frame_log frame_terminate_st] frame_setTimeout])
  next
    case ExitHandler
    show ?thesis
      unfolding Own ExitHandler invoke.simps by (rule frame_terminate_st)
  qed
qed

lemma frame_foldl_invoke: "frame s (foldl (\<lambda>s1 l. invoke k l s1) s ls)"
proof (induction ls arbitrary: s)
  case Nil
  show ?case by (simp add: frame_refl)
next
  case (Cons l ls)
  have "frame s (invoke k l s)" by (rule frame_invoke)
  moreover have "frame (invoke k l s) (foldl (\<lambda>s1 l. invoke k l s1) (invoke k l s) ls)"
    by (rule Cons.IH)
  ultimately show ?case by (simp add: frame_trans)
qed

lemma frame_emit: "frame s (emit k ev s)"
  by (simp add: emit_def frame_foldl_invoke)

lemma frame_processExit: "frame s (processExit k code s)"
  unfolding processExit_def by (rule frame_trans [OF frame_emit frame_hostExit])

lemma frame_fire: "frame s (fire k t s)"
proof (cases t)
  case TimeoutTimer
  show ?thesis
    unfolding TimeoutTimer fire.simps
    using frame_trans [OF frame_log frame_terminate_st] by (simp add: frame_refl)
next
  case ForceExitTimer
  show ?thesis
    unfolding ForceExitTimer fire.simps by (simp add: frame_refl frame_processExit)
next
  case ExceptionExitTimer
  show ?thesis
    unfolding ExceptionExitTimer fire.simps by (rule frame_processExit)
next
  case ForceKillTimer
  have a: "frame s (state_of (child_kill k GraceTimer SIGKILL s))"
    by (rule frame_child_kill) simp
  show ?thesis
  proof (cases "child_kill k GraceTimer SIGKILL s")
    case (Inl x)
    obtain e s1 where x: "x = (e, s1)" by (cases x)
    have "frame s s1" using a by (simp add: Inl x state_of_def)
    then have "frame s (emit k OnUncaughtException s1)"
      by (rule frame_trans) (rule frame_emit)
    then show ?thesis
      by (simp add: ForceKillTimer Inl x frame_refl split: option.splits)
  next
    case (Inr s1)
    have "frame s s1" using a by (simp add: Inr state_of_def)
    then show ?thesis
      by (simp add: ForceKillTimer Inr frame_refl split: option.splits)
  qed
qed

lemma frame_treeKillCallback: "frame s (treeKillCallback k err s)"
proof (cases err)
  case True
  have "frame (log TreeKillError LError s)
          (state_of (child_kill k TreeKillFallback SIGKILL (log TreeKillError LError s)))"
    by (rule frame_child_kill) simp
  with frame_log [of s TreeKillError LError] show ?thesis
    by (simp add: treeKillCallback_def True frame_trans)
next
  case False
  then show ?thesis by (simp add: treeKillCallback_def frame_refl)
qed

lemma frame_onChildError: "frame s (onChildError s)"
  by (simp add: onChildError_def frame_log)

lemma frame_dispatch: "\<not> lifecycle e \<Longrightarrow> frame s (dispatch e s)"
proof (cases e)
  case (TimerFires n k)
  show ?thesis
    using frame_trans [OF frame_timers frame_fire]
    by (simp add: TimerFires frame_refl)
next
  case (TreeKillDone err k)
  show ?thesis
    using frame_trans [OF frame_treeKillPending frame_treeKillCallback]
    by (simp add: TreeKillDone frame_refl)
qed (simp_all add: frame_terminate_st frame_emit frame_processExit frame_onChildError frame_refl)

lemma frame_step: "\<not> lifecycle e \<Longrightarrow> frame s (step e s)"
  by (simp add: step_def frame_refl frame_dispatch)

subsection \<open>Registrations\<close>

lemma own_registrations_own:
  "r \<in> set (own_registrations w g) \<Longrightarrow> \<exists>ev h. r = (ev, Own h g)"
  by (auto simp: own_registrations_def signals_def)

lemma distinct_own_registrations: "distinct (own_registrations w g)"
  by (simp add: own_registrations_def signals_def)

lemma filter_foreign_own: "filter foreign (own_registrations w g) = []"
  by (simp add: own_registrations_def signals_def)

lemma registered_gen:
  "r \<in> set (concat (map (own_registrations w) [0..<n])) \<Longrightarrow> \<exists>ev h g. r = (ev, Own h g) \<and> g < n"
  by (auto dest: own_registrations_own)

lemma distinct_registrations: "distinct (concat (map (own_registrations w) [0..<n]))"
proof (induction n)
  case 0
  show ?case by simp
next
  case (Suc n)
  have "set (concat (map (own_registrations w) [0..<n])) \<inter> set (own_registrations w n) = {}"
  proof (rule ccontr)
    assume "\<not> ?thesis"
    then obtain r where a: "r \<in> set (concat (map (own_registrations w) [0..<n]))"
      and b: "r \<in> set (own_registrations w n)" by blast
    from registered_gen [OF a] own_registrations_own [OF b] show False by auto
  qed
  with Suc show ?case by (simp add: distinct_own_registrations)
qed

lemma distinct_registered: "distinct (registered s)"
  by (simp add: registered_def distinct_registrations)

lemma registered_not_foreign: "r \<in> set (registered s) \<Longrightarrow> \<not> foreign r"
  unfolding registered_def by (drule registered_gen) auto

lemma removeListener_last: "x \<notin> set xs \<Longrightarrow> removeListener x (f @ x # xs) = f @ xs"
  by (simp add: removeListener_def remove1_append)

lemma remove_all:
  "distinct ch \<Longrightarrow> foldl (\<lambda>ls r. removeListener r ls) (f @ ch) ch = f"
  by (induction ch) (simp_all add: removeListener_last)

subsection \<open>\<open>start\<close> and the exit of the child\<close>

lemma start_held: "child s \<noteq> None \<Longrightarrow> start sp s = Inl (AlreadyStarted, s)"
  by (simp add: start_def)

lemma start_throws:
  "child s = None \<Longrightarrow>
   state_of (start SpawnThrows s) = (log StartingProcess LDebug s)\<lparr>spawns := Suc (spawns s)\<rparr>"
  by (simp add: start_def state_of_def)

lemma start_spawned:
  assumes "child s = None" "sp \<noteq> SpawnThrows"
  shows "child (state_of (start sp s))
           = Some \<lparr>cp_pid = (case sp of SpawnOk p \<Rightarrow> Some p | _ \<Rightarrow> None), cp_killed = False\<rparr>"
    and "exitPromise (state_of (start sp s)) = Some Pending"
    and "cleanupHandlers (state_of (start sp s))
           = cleanupHandlers s @ own_registrations (isWindows s) (closures s)"
    and "listeners (state_of (start sp s))
           = listeners s @ own_registrations (isWindows s) (closures s)"
    and "closures (state_of (start sp s)) = Suc (closures s)"
    and "isWindows (state_of (start sp s)) = isWindows s"
    and "terminated (state_of (start sp s)) = terminated s"
    and "kills (state_of (start sp s)) = kills s"
    and "removed (state_of (start sp s)) = removed s"
    and "options (state_of (start sp s)) = options s"
    and "spawns (state_of (start sp s)) = Suc (spawns s)"
  using assms
  by (cases sp;
      simp add: start_def state_of_def createExitPromise_def setupCleanupHandlers_def Let_def)+

lemma onChildExit_fields:
  "terminated (onChildExit code sg s)"
  "child (onChildExit code sg s) = None"
  "cleanupHandlers (onChildExit code sg s) = []"
  "removed (onChildExit code sg s) = removed s @ cleanupHandlers s"
  "listeners (onChildExit code sg s)
     = foldl (\<lambda>ls r. removeListener r ls) (listeners s) (cleanupHandlers s)"
  "kills (onChildExit code sg s) = kills s"
  "isWindows (onChildExit code sg s) = isWindows s"
  "closures (onChildExit code sg s) = closures s"
  "options (onChildExit code sg s) = options s"
  "exitPromise (onChildExit code sg s)
     = (if exitPromise s = Some Pending then Some (Resolved (code_or_0 code)) else exitPromise s)"
  by (simp_all add: onChildExit_def resolve_def cleanup_def split: option.splits promise.splits)

subsection \<open>The invariant\<close>

lemma inv_new: "inv (new opts w fs)"
proof -
  have "filter foreign (map (\<lambda>(ev, n). (ev, Foreign n)) fs) = map (\<lambda>(ev, n). (ev, Foreign n)) fs"
    by (induction fs) auto
  then show ?thesis
    by (simp add: inv_def new_def registered_def initiations_def)
qed

lemma inv_frame:
  assumes f: "frame s t" and i: "inv s"
  shows "inv t"
proof -
  have r: "registered t = registered s"
    using f by (simp add: registered_def frame_def)
  have k: "length (initiations t) \<le> 1 \<and> (initiations t \<noteq> [] \<longrightarrow> terminated t)"
  proof (cases "terminated s")
    case True
    then have "initiations t = initiations s" "terminated t"
      using f by (simp_all add: frame_def blocked_def)
    then show ?thesis using i by (simp add: inv_def)
  next
    case False
    then have e: "initiations s = []" using i by (auto simp: inv_def)
    have "length (initiations t) \<le> 1" using f e by (simp add: frame_def)
    moreover have "initiations t \<noteq> [] \<longrightarrow> terminated t"
      using f e by (auto simp: frame_def)
    ultimately show ?thesis by simp
  qed
  have "child t \<noteq> None \<longrightarrow> exitPromise t = Some Pending"
    using f i by (simp add: frame_def inv_def)
  moreover have "\<forall>c. exitPromise t = Some (Resolved c) \<longrightarrow> terminated t"
    using f i by (simp add: frame_def inv_def)
  moreover have "child t = None \<longrightarrow> cleanupHandlers t = []"
    using f i by (simp add: frame_def inv_def)
  moreover have "child t \<noteq> None \<longrightarrow>
      0 < closures t \<and> cleanupHandlers t = own_registrations (isWindows t) (closures t - 1)"
    using f i by (simp add: frame_def inv_def)
  moreover have "removed t @ cleanupHandlers t = registered t"
    using f i r by (simp add: frame_def inv_def)
  moreover have "listeners t = filter foreign (listeners t) @ cleanupHandlers t"
    using f i by (simp add: frame_def inv_def)
  ultimately show ?thesis using k unfolding inv_def by blast
qed

lemma inv_start:
  assumes i: "inv s"
  shows "inv (state_of (start sp s))"
proof (cases "child s = None")
  case False
  then show ?thesis using i by (simp add: start_held state_of_def)
next
  case True
  note c = True
  show ?thesis
  proof (cases "sp = SpawnThrows")
    case True
    have "frame s ((log StartingProcess LDebug s)\<lparr>spawns := Suc (spawns s)\<rparr>)"
      by (simp add: frame_def initiations_def pid_def)
    from inv_frame [OF this i] show ?thesis
      by (simp add: True start_throws [OF c])
  next
    case False
    note sp = start_spawned [OF c False]
    have e: "cleanupHandlers s = []" using i c by (simp add: inv_def)
    have l: "listeners s = filter foreign (listeners s)" using i e by (simp add: inv_def)
    have "removed (state_of (start sp s)) @ cleanupHandlers (state_of (start sp s))
            = registered (state_of (start sp s))"
      using i by (simp add: sp registered_def inv_def)
    moreover have "listeners (state_of (start sp s))
            = filter foreign (listeners (state_of (start sp s))) @ cleanupHandlers (state_of (start sp s))"
      using l by (simp add: sp e filter_foreign_own)
    moreover have "length (initiations (state_of (start sp s))) \<le> 1 \<and>
        (initiations (state_of (start sp s)) \<noteq> [] \<longrightarrow> terminated (state_of (start sp s)))"
      using i by (simp add: sp initiations_def inv_def)
    moreover have "\<forall>c. exitPromise (state_of (start sp s)) = Some (Resolved c)
         \<longrightarrow> terminated (state_of (start sp s))"
      by (simp add: sp)
    moreover have "cleanupHandlers (state_of (start sp s))
         = own_registrations (isWindows (state_of (start sp s))) (closures (state_of (start sp s)) - 1)"
      by (simp add: sp e)
    ultimately show ?thesis
      unfolding inv_def by (simp add: sp)
  qed
qed

lemma onChildExit_hostExit: "hostExit (onChildExit code sg s) = hostExit s"
  by (simp add: onChildExit_def resolve_def cleanup_def split: option.splits promise.splits)

lemma cleanup_listeners:
  assumes i: "inv s"
  shows "foldl (\<lambda>ls r. removeListener r ls) (listeners s) (cleanupHandlers s)
           = filter foreign (listeners s)"
proof -
  have "distinct (removed s @ cleanupHandlers s)"
    using i distinct_registered [of s] by (simp add: inv_def)
  then have d: "distinct (cleanupHandlers s)" by simp
  have "listeners s = filter foreign (listeners s) @ cleanupHandlers s"
    using i by (simp add: inv_def)
  then show ?thesis using remove_all [OF d, of "filter foreign (listeners s)"] by simp
qed

lemma inv_onChildExit:
  assumes i: "inv s"
  shows "inv (onChildExit code sg s)"
proof -
  have "removed s @ cleanupHandlers s = registered s" using i by (simp add: inv_def)
  moreover have "registered (onChildExit code sg s) = registered s"
    by (simp add: registered_def onChildExit_fields)
  moreover have "length (initiations s) \<le> 1" using i by (simp add: inv_def)
  ultimately show ?thesis
    unfolding inv_def
    by (simp add: onChildExit_fields cleanup_listeners [OF i] initiations_def)
qed

lemma inv_step: "inv s \<Longrightarrow> inv (step e s)"
proof (cases "lifecycle e")
  case True
  assume "inv s"
  with True show ?thesis
    by (cases e) (simp_all add: step_def inv_start inv_onChildExit)
next
  case False
  assume "inv s"
  with frame_step [OF False] show ?thesis by (rule inv_frame)
qed

lemma inv_run: "inv s \<Longrightarrow> inv (run s evs)"
  by (induction evs arbitrary: s) (simp_all add: inv_step)

subsection \<open>The latch\<close>

lemma latched_blocked: "latched s \<Longrightarrow> blocked s"
  by (auto simp: latched_def blocked_def)

lemma terminate_sets_latch:
  assumes "\<not> blocked s"
  shows "terminated (terminate_st k sg s)"
    and "\<exists>c. initiations (terminate_st k sg s) = initiations s @ [c]"
proof -
  from assms obtain c p where a: "\<not> terminated s" "child s = Some c" "cp_pid c = Some p" "p \<noteq> 0"
    by (auto simp: blocked_def pid_def split: option.splits)
  show "terminated (terminate_st k sg s)"
    unfolding terminate_st_def terminate_active [OF a]
    using a
    by (cases k; cases "isWindows s")
       (simp_all add: terminate_try_def treeKill_def child_kill_def state_of_def)
  show "\<exists>c. initiations (terminate_st k sg s) = initiations s @ [c]"
    unfolding terminate_st_def terminate_active [OF a]
    using a
    by (cases k; cases "isWindows s")
       (simp_all add: terminate_try_def treeKill_def child_kill_def state_of_def initiations_def)
qed

lemma terminate_st_blocked: "blocked s \<Longrightarrow> terminate_st k sg s = s"
  by (simp add: terminate_st_def terminate_blocked state_of_def)

lemma blocked_after_terminate: "blocked (terminate_st k sg s)"
proof (cases "blocked s")
  case True
  then show ?thesis by (simp add: terminate_st_blocked)
next
  case False
  then show ?thesis using terminate_sets_latch(1) [OF False] by (simp add: blocked_def)
qed

lemma latched_after_terminate:
  assumes "child s \<noteq> None \<or> terminated s"
  shows "latched (terminate_st k sg s)"
proof (cases "blocked s")
  case True
  then show ?thesis using assms by (auto simp: terminate_st_blocked latched_def blocked_def)
next
  case False
  then show ?thesis using terminate_sets_latch(1) [OF False] by (simp add: latched_def)
qed

lemma latched_frame:
  assumes "frame s t" "latched s"
  shows "latched t \<and> initiations t = initiations s"
  using assms latched_blocked [OF assms(2)]
  by (auto simp: frame_def latched_def)

lemma latched_start:
  assumes l: "latched s"
  shows "latched (state_of (start sp s)) \<and> initiations (state_of (start sp s)) = initiations s"
proof (cases "child s = None")
  case False
  then show ?thesis using l by (simp add: start_held state_of_def)
next
  case True
  then have t: "terminated s" using l by (simp add: latched_def)
  show ?thesis
  proof (cases "sp = SpawnThrows")
    case True
    with \<open>child s = None\<close> t show ?thesis
      by (simp add: start_throws latched_def initiations_def)
  next
    case False
    note sp = start_spawned [OF \<open>child s = None\<close> False]
    show ?thesis using t by (simp add: latched_def initiations_def sp)
  qed
qed

lemma latched_step:
  assumes l: "latched s"
  shows "latched (step e s) \<and> initiations (step e s) = initiations s"
proof (cases "lifecycle e")
  case False
  from latched_frame [OF frame_step [OF False] l] show ?thesis .
next
  case True
  then show ?thesis
    using l latched_start [OF l]
    by (cases e) (auto simp: step_def latched_def initiations_def onChildExit_fields)
qed

lemma latched_run:
  "latched s \<Longrightarrow> latched (run s evs) \<and> initiations (run s evs) = initiations s"
proof (induction evs arbitrary: s)
  case Nil
  then show ?case by simp
next
  case (Cons e evs)
  from latched_step [OF Cons.prems] Cons.IH [of "step e s"] show ?case by simp
qed

lemma terminated_start: "terminated s \<Longrightarrow> terminated (state_of (start sp s))"
proof (cases "child s = None")
  case False
  assume "terminated s"
  with False show ?thesis by (simp add: start_held state_of_def)
next
  case True
  assume t: "terminated s"
  show ?thesis
  proof (cases "sp = SpawnThrows")
    case True
    with \<open>child s = None\<close> t show ?thesis by (simp add: start_throws)
  next
    case False
    from start_spawned(7) [OF \<open>child s = None\<close> False] t show ?thesis by simp
  qed
qed

lemma terminated_step: "terminated s \<Longrightarrow> terminated (step e s)"
proof (cases "lifecycle e")
  case False
  assume "terminated s"
  with frame_step [OF False, of s] show ?thesis by (simp add: frame_def)
next
  case True
  assume "terminated s"
  with True show ?thesis
    by (cases e) (simp_all add: step_def terminated_start onChildExit_fields)
qed

lemma terminated_run: "terminated s \<Longrightarrow> terminated (run s evs)"
  by (induction evs arbitrary: s) (simp_all add: terminated_step)

text \<open>Calls of \<open>terminate\<close> in a row, after the first, change nothing.\<close>

lemma repeated_terminate:
  "blocked s \<Longrightarrow> run s (map (\<lambda>(sg, k). CallTerminate sg k) cs) = s"
  by (induction cs) (auto simp: step_def terminate_st_blocked)

lemma isWindows_start: "isWindows (state_of (start sp s)) = isWindows s"
proof (cases "child s = None")
  case False
  then show ?thesis by (simp add: start_held state_of_def)
next
  case True
  show ?thesis
  proof (cases "sp = SpawnThrows")
    case True
    with \<open>child s = None\<close> show ?thesis by (simp add: start_throws)
  next
    case False
    from start_spawned(6) [OF \<open>child s = None\<close> False] show ?thesis .
  qed
qed

lemma isWindows_step: "isWindows (step e s) = isWindows s"
proof (cases "lifecycle e")
  case False
  with frame_step [OF False, of s] show ?thesis by (simp add: frame_def)
next
  case True
  then show ?thesis
    by (cases e) (simp_all add: step_def isWindows_start onChildExit_fields)
qed

lemma isWindows_run: "isWindows (run s evs) = isWindows s"
  by (induction evs arbitrary: s) (simp_all add: isWindows_step)

subsection \<open>The listeners of other code\<close>

lemma foreign_step:
  assumes i: "inv s"
  shows "filter foreign (listeners (step e s)) = filter foreign (listeners s)"
proof (cases "lifecycle e")
  case False
  with frame_step [OF False, of s] show ?thesis by (simp add: frame_def)
next
  case True
  show ?thesis
  proof (cases e)
    case (CallStart sp)
    show ?thesis
    proof (cases "child s = None \<and> sp \<noteq> SpawnThrows")
      case True
      then have "listeners (state_of (start sp s))
                   = listeners s @ own_registrations (isWindows s) (closures s)"
        by (simp add: start_spawned)
      then show ?thesis by (simp add: CallStart step_def filter_foreign_own)
    next
      case False
      show ?thesis
      proof (cases "child s = None")
        case True
        with False show ?thesis by (simp add: CallStart step_def start_throws)
      next
        case False
        then show ?thesis by (simp add: CallStart step_def start_held state_of_def)
      qed
    qed
  next
    case (ChildExit code sg)
    show ?thesis
      by (simp add: ChildExit step_def onChildExit_fields cleanup_listeners [OF i])
  qed (use True in simp_all)
qed

lemma foreign_run:
  "inv s \<Longrightarrow> filter foreign (listeners (run s evs)) = filter foreign (listeners s)"
proof (induction evs arbitrary: s)
  case Nil
  show ?case by simp
next
  case (Cons e evs)
  from Cons.IH [OF inv_step [OF Cons.prems], of e] foreign_step [OF Cons.prems, of e]
  show ?case by simp
qed

lemma foreign_new:
  "filter foreign (listeners (new opts w fs)) = map (\<lambda>(ev, n). (ev, Foreign n)) fs"
  by (induction fs) (auto simp: new_def)

lemma invoke_foreign:
  "\<forall>l \<in> set ls. \<exists>n. l = Foreign n \<Longrightarrow> foldl (\<lambda>s1 l. invoke k l s1) s ls = s"
  by (induction ls) auto

lemma foreign_listener: "foreign (ev, l) \<Longrightarrow> \<exists>n. l = Foreign n"
  by (cases l) simp_all

lemma emit_foreign:
  assumes "listeners s = filter foreign (listeners s)"
  shows "emit k ev s = s"
proof -
  have "\<forall>r \<in> set (listeners s). foreign r"
    using assms [symmetric] by (simp add: filter_id_conv)
  then have "\<forall>l \<in> set (listeners_of ev s). \<exists>n. l = Foreign n"
    by (auto simp: listeners_of_def dest: foreign_listener)
  then show ?thesis by (simp add: emit_def invoke_foreign)
qed

subsection \<open>The promise\<close>

lemma pending_step:
  assumes "child s \<noteq> None" "exitPromise s = Some Pending" "\<forall>code sg. e \<noteq> ChildExit code sg"
  shows "child (step e s) \<noteq> None \<and> exitPromise (step e s) = Some Pending"
proof (cases "lifecycle e")
  case False
  with frame_step [OF False, of s] assms show ?thesis by (simp add: frame_def)
next
  case True
  with assms show ?thesis
    by (cases e) (simp_all add: step_def start_held state_of_def)
qed

lemma pending_run:
  assumes "child s \<noteq> None" "exitPromise s = Some Pending"
    "\<forall>e \<in> set evs. \<forall>code sg. e \<noteq> ChildExit code sg"
  shows "exitPromise (run s evs) = Some Pending"
  using assms
proof (induction evs arbitrary: s)
  case Nil
  then show ?case by simp
next
  case (Cons e evs)
  from pending_step [of s e] Cons.prems
  have "child (step e s) \<noteq> None \<and> exitPromise (step e s) = Some Pending" by simp
  with Cons.IH [of "step e s"] Cons.prems show ?case by simp
qed

text \<open>Once a signal has been delivered to the child, the forced-kill timer does nothing.\<close>

lemma fire_ForceKillTimer_killed:
  "child s = Some c \<Longrightarrow> cp_killed c \<Longrightarrow> fire k ForceKillTimer s = s"
  by simp

section \<open>The claims\<close>

subsection \<open>C1\<close>

text \<open>
  C1. However often \<open>terminate\<close> is invoked, only the first invocation performs the kill
  sequence. A call that follows another call of \<open>terminate\<close> returns the state as it
  found it, and so does any number of calls in a row. When the first invocation finds a
  child with a pid and the latch clear, it sets the latch and begins exactly one kill
  sequence. When it is made on a wrapper that holds a child (so from a signal handler,
  the timeout timer, the exit hook, or directly after \<open>start\<close>), no event that follows,
  whatever invokes \<open>terminate\<close> again, begins another one. And no sequence of events on
  a new wrapper begins more than one.
\<close>

theorem terminate_only_first_kills:
  "terminate k2 sg2 (terminate_st k sg s) = Inr (terminate_st k sg s) \<and>
   run (terminate_st k sg s) (map (\<lambda>(sg, k). CallTerminate sg k) cs) = terminate_st k sg s \<and>
   (\<not> blocked s \<longrightarrow>
      terminated (terminate_st k sg s) \<and>
      (\<exists>c. initiations (terminate_st k sg s) = initiations s @ [c])) \<and>
   (child s \<noteq> None \<or> terminated s \<longrightarrow>
      initiations (run (terminate_st k sg s) evs) = initiations (terminate_st k sg s)) \<and>
   length (initiations (run (new opts w fs) evs)) \<le> 1"
proof (intro conjI impI)
  show "terminate k2 sg2 (terminate_st k sg s) = Inr (terminate_st k sg s)"
    by (rule terminate_blocked) (rule blocked_after_terminate)
next
  show "run (terminate_st k sg s) (map (\<lambda>(sg, k). CallTerminate sg k) cs) = terminate_st k sg s"
    by (rule repeated_terminate) (rule blocked_after_terminate)
next
  assume "\<not> blocked s"
  then show "terminated (terminate_st k sg s)" by (rule terminate_sets_latch)
next
  assume "\<not> blocked s"
  then show "\<exists>c. initiations (terminate_st k sg s) = initiations s @ [c]"
    by (rule terminate_sets_latch)
next
  assume "child s \<noteq> None \<or> terminated s"
  then have "latched (terminate_st k sg s)" by (rule latched_after_terminate)
  from latched_run [OF this]
  show "initiations (run (terminate_st k sg s) evs) = initiations (terminate_st k sg s)"
    by simp
next
  have "inv (run (new opts w fs) evs)" by (rule inv_run) (rule inv_new)
  then show "length (initiations (run (new opts w fs) evs)) \<le> 1" by (simp add: inv_def)
qed

theorem terminate_only_first_kills_witness:
  "\<not> blocked unix_running \<and> child unix_running \<noteq> None \<and>
   terminated (terminate_st KillSent SIGTERM unix_running) \<and>
   initiations (terminate_st KillSent SIGTERM unix_running) = [ChildKill Graceful SIGTERM] \<and>
   initiations (run (terminate_st KillSent SIGTERM unix_running)
      [HostSignal SIGINT KillSent, CallTerminate SIGKILL KillSent, TimerFires 0 KillSent,
       HostExit 0 KillSent]) = [ChildKill Graceful SIGTERM]"
proof -
  have b: "\<not> blocked unix_running" and c: "child unix_running \<noteq> None"
    by (simp_all add: model_defs blocked_def)
  have i: "initiations (terminate_st KillSent SIGTERM unix_running) = [ChildKill Graceful SIGTERM]"
    by (simp add: model_defs)
  show ?thesis
    using b c i
      terminate_only_first_kills [of KillSent SIGTERM KillSent SIGTERM unix_running "[]"
        "[HostSignal SIGINT KillSent, CallTerminate SIGKILL KillSent, TimerFires 0 KillSent,
          HostExit 0 KillSent]" echo_options False "[]"]
    by simp
qed

subsection \<open>C2\<close>

text \<open>
  C2. In every state that the events can reach from a new wrapper and in which the child
  is running, when the child exits normally with the code \<open>c\<close> the promise that \<open>start\<close>
  returned is resolved to exactly \<open>c\<close>: 0 for the code 0, 3 for the code 3.
\<close>

theorem start_resolves_to_exit_code:
  assumes "s = run (new opts w fs) evs" and "child s \<noteq> None" and "hostExit s = None"
  shows "exitPromise (step (ChildExit (Some c) sg) s) = Some (Resolved c)"
proof -
  have "inv s" unfolding assms(1) by (rule inv_run) (rule inv_new)
  then have "exitPromise s = Some Pending" using assms(2) by (simp add: inv_def)
  then show ?thesis
    using assms(2,3) by (simp add: step_def onChildExit_fields code_or_0_def)
qed

theorem start_resolves_to_exit_code_witness:
  "child unix_running \<noteq> None \<and> hostExit unix_running = None \<and>
   exitPromise (step (ChildExit (Some 3) None) unix_running) = Some (Resolved 3)"
proof -
  have a: "child unix_running \<noteq> None" and b: "hostExit unix_running = None"
    by (simp_all add: model_defs)
  show ?thesis
    using a b start_resolves_to_exit_code [OF unix_running_def a b, of 3 None] by simp
qed

subsection \<open>C3\<close>

text \<open>
  C3, as the code has it. In every state that the events can reach from a new wrapper
  and in which the child is running, when the child is ended by a signal (the exit event
  carries a null code) the promise that \<open>start\<close> returned is resolved to 0, the value of
  a normal exit with the code 0.
\<close>

theorem signal_exit_resolves_to_zero:
  assumes "s = run (new opts w fs) evs" and "child s \<noteq> None" and "hostExit s = None"
  shows "exitPromise (step (ChildExit None (Some sg)) s) = Some (Resolved 0) \<and>
         exitPromise (step (ChildExit None (Some sg)) s)
           = exitPromise (step (ChildExit (Some 0) None) s)"
proof -
  have "inv s" unfolding assms(1) by (rule inv_run) (rule inv_new)
  then have "exitPromise s = Some Pending" using assms(2) by (simp add: inv_def)
  then show ?thesis
    using assms(2,3) by (simp add: step_def onChildExit_fields code_or_0_def)
qed

theorem signal_exit_resolves_to_zero_witness:
  "child unix_running \<noteq> None \<and> hostExit unix_running = None \<and>
   exitPromise (step (ChildExit None (Some SIGKILL)) unix_running) = Some (Resolved 0)"
proof -
  have a: "child unix_running \<noteq> None" and b: "hostExit unix_running = None"
    by (simp_all add: model_defs)
  show ?thesis
    using a b signal_exit_resolves_to_zero [OF unix_running_def a b, of SIGKILL] by simp
qed

text \<open>
  C3 as stated fails: a child that \<open>terminate\<close> ended with SIGTERM makes \<open>start\<close> resolve
  to 0, as a child that exited with the code 0 does.
\<close>

theorem signal_exit_counterexample:
  "exitPromise (run unix_running [CallTerminate SIGTERM KillSent, ChildExit None (Some SIGTERM)])
     = Some (Resolved 0) \<and>
   exitPromise (run unix_running [ChildExit (Some 0) None]) = Some (Resolved 0)"
  by (simp add: model_defs)

subsection \<open>C4\<close>

text \<open>
  C4 fails on the code once the first child has exited: \<open>cleanup\<close> has set \<open>child\<close> to
  null, the guard of \<open>start\<close> passes, and the second call spawns a child with pid 200 and
  registers its handlers. The latch is still set, so \<open>terminate\<close> does not kill that
  child.
\<close>

theorem second_start_after_exit_spawns:
  "start (SpawnOk 200) unix_exited = Inr (run unix_exited [CallStart (SpawnOk 200)]) \<and>
   pid (run unix_exited [CallStart (SpawnOk 200)]) = Some 200 \<and>
   spawns (run unix_exited [CallStart (SpawnOk 200)]) = 2 \<and>
   length (listeners (run unix_exited [CallStart (SpawnOk 200)])) = 5 \<and>
   kills (run unix_exited [CallStart (SpawnOk 200), CallTerminate SIGTERM KillSent]) = []"
  by (simp add: model_defs)

subsection \<open>C5\<close>

text \<open>
  C5. In every state and for every signal, \<open>terminate\<close> returns normally: it never
  raises to its caller. When the kill call of a running wrapper throws, the last console
  line of the returned state is the error line of the \<open>catch\<close> block; when tree-kill
  reports an error to its callback, the callback writes the error line and returns,
  whatever the fallback kill does.
\<close>

theorem terminate_never_raises:
  "(\<exists>s1. terminate k sg s = Inr s1) \<and>
   (\<not> blocked s \<longrightarrow>
      (\<exists>cs. console (terminate_st KillThrows sg s) = cs @ [(Stderr, False, TerminateError)])) \<and>
   console (treeKillCallback k True s) = console s @ [(Stderr, False, TreeKillError)]"
proof (intro conjI impI)
  show "\<exists>s1. terminate k sg s = Inr s1"
    using terminate_returns by blast
next
  assume "\<not> blocked s"
  then obtain c p where a: "\<not> terminated s" "child s = Some c" "cp_pid c = Some p" "p \<noteq> 0"
    by (auto simp: blocked_def pid_def split: option.splits)
  show "\<exists>cs. console (terminate_st KillThrows sg s) = cs @ [(Stderr, False, TerminateError)]"
    unfolding terminate_st_def terminate_active [OF a]
    using a
    by (cases "isWindows s")
       (simp_all add: terminate_try_def treeKill_def child_kill_def state_of_def log_def)
next
  show "console (treeKillCallback k True s) = console s @ [(Stderr, False, TreeKillError)]"
    by (cases k; cases "child s")
       (simp_all add: treeKillCallback_def child_kill_def state_of_def log_def)
qed

theorem terminate_never_raises_witness:
  "\<not> blocked unix_running \<and>
   (\<exists>s1. terminate KillThrows SIGTERM unix_running = Inr s1) \<and>
   (\<exists>cs. console (terminate_st KillThrows SIGTERM unix_running)
           = cs @ [(Stderr, False, TerminateError)])"
proof -
  have b: "\<not> blocked unix_running"
    by (simp add: model_defs blocked_def)
  show ?thesis
    using b terminate_never_raises [of KillThrows SIGTERM unix_running] by blast
qed

subsection \<open>C6\<close>

text \<open>
  C6. Once the exit listener of the child has run, the timeout timer does nothing,
  whatever happened in between: its callback returns the state as it found it, and the
  event that fires it adds no kill call. In any state, the timer adds a kill call only
  if the latch is clear and the wrapper still holds the child.
\<close>

theorem timeout_after_exit_is_noop:
  "fire k TimeoutTimer (run (onChildExit code sg s) evs) = run (onChildExit code sg s) evs \<and>
   (n < length (timers (run (onChildExit code sg s) evs)) \<and>
    timers (run (onChildExit code sg s) evs) ! n = TimeoutTimer \<longrightarrow>
      kills (step (TimerFires n k) (run (onChildExit code sg s) evs))
        = kills (run (onChildExit code sg s) evs)) \<and>
   (kills (fire k TimeoutTimer s) \<noteq> kills s \<longrightarrow> \<not> terminated s \<and> child s \<noteq> None)"
proof -
  have t: "terminated (run (onChildExit code sg s) evs)"
    by (rule terminated_run) (simp add: onChildExit_fields)
  then have a: "fire k TimeoutTimer (run (onChildExit code sg s) evs)
                  = run (onChildExit code sg s) evs"
    by simp
  have b: "n < length (timers (run (onChildExit code sg s) evs)) \<and>
           timers (run (onChildExit code sg s) evs) ! n = TimeoutTimer \<longrightarrow>
           kills (step (TimerFires n k) (run (onChildExit code sg s) evs))
             = kills (run (onChildExit code sg s) evs)"
    using t by (simp add: step_def)
  have c: "kills (fire k TimeoutTimer s) \<noteq> kills s \<longrightarrow> \<not> terminated s \<and> child s \<noteq> None"
    by auto
  from a b c show ?thesis by blast
qed


theorem timeout_after_exit_is_noop_witness:
  "0 < length (timers (run (onChildExit (Some 0) None sleep_running) [])) \<and>
   timers (run (onChildExit (Some 0) None sleep_running) []) ! 0 = TimeoutTimer \<and>
   kills (step (TimerFires 0 KillSent) (run (onChildExit (Some 0) None sleep_running) [])) = [] \<and>
   kills (fire KillSent TimeoutTimer sleep_running) \<noteq> kills sleep_running \<and>
   \<not> terminated sleep_running \<and> child sleep_running \<noteq> None"
proof -
  note th = timeout_after_exit_is_noop [of KillSent "Some 0" None sleep_running "[]" 0]
  have a: "0 < length (timers (run (onChildExit (Some 0) None sleep_running) []))"
    by (simp add: model_defs)
  have b: "timers (run (onChildExit (Some 0) None sleep_running) []) ! 0 = TimeoutTimer"
    by (simp add: model_defs)
  have c: "kills (run (onChildExit (Some 0) None sleep_running) []) = []"
    by (simp add: model_defs)
  have d: "kills (fire KillSent TimeoutTimer sleep_running) \<noteq> kills sleep_running"
    by (simp add: model_defs)
  have e: "kills (step (TimerFires 0 KillSent) (run (onChildExit (Some 0) None sleep_running) []))
             = kills (run (onChildExit (Some 0) None sleep_running) [])"
    using th a b by blast
  have f: "\<not> terminated sleep_running \<and> child sleep_running \<noteq> None"
    using th d by blast
  show ?thesis
    using a b e [unfolded c] d f by blast
qed

subsection \<open>C7\<close>

text \<open>
  C7. In every state that the events can reach from a new wrapper and in which the child
  is running, the handlers on \<open>cleanupHandlers\<close> are those that the last call of \<open>start\<close>
  registered (SIGINT, SIGTERM, SIGHUP, SIGBREAK on Windows, the uncaught exception and
  the exit hook). The exit of the child empties \<open>cleanupHandlers\<close> and leaves on the host
  process only the listeners of other code; it calls \<open>removeListener\<close> once for each of
  these handlers, so that every handler the wrapper ever registered has then been
  removed exactly once; and a signal that reaches the host process afterwards
  changes nothing: no handler of the wrapper runs, \<open>terminate\<close> is not invoked.
\<close>

theorem handlers_deregistered_on_exit:
  assumes "s = run (new opts w fs) evs" and "child s \<noteq> None" and "hostExit s = None"
    and "t = step (ChildExit code sg) s"
  shows "cleanupHandlers s = own_registrations w (closures s - 1) \<and>
         cleanupHandlers t = [] \<and>
         listeners t = map (\<lambda>(ev, n). (ev, Foreign n)) fs \<and>
         removed t = removed s @ own_registrations w (closures s - 1) \<and>
         removed t = registered t \<and> distinct (removed t) \<and>
         step (HostSignal sig k) t = t"
proof -
  have i: "inv s" unfolding assms(1) by (rule inv_run) (rule inv_new)
  have t: "t = onChildExit code sg s" using assms(2,3,4) by (simp add: step_def)
  have "filter foreign (listeners s) = filter foreign (listeners (new opts w fs))"
    unfolding assms(1) by (rule foreign_run) (rule inv_new)
  then have l: "listeners t = map (\<lambda>(ev, n). (ev, Foreign n)) fs"
    by (simp add: t onChildExit_fields cleanup_listeners [OF i] foreign_new)
  have "listeners t = filter foreign (listeners s)"
    by (simp add: t onChildExit_fields cleanup_listeners [OF i])
  then have "listeners t = filter foreign (listeners t)" by simp
  then have e: "emit k (OnSignal sig) t = t" by (rule emit_foreign)
  have r: "removed t = registered t"
    using i by (simp add: t onChildExit_fields registered_def inv_def)
  then have d: "distinct (removed t)" by (simp add: distinct_registered)
  have h: "step (HostSignal sig k) t = t"
    using e by (simp add: step_def)
  have "isWindows s = w"
    unfolding assms(1) by (simp add: isWindows_run new_def)
  then have c: "cleanupHandlers s = own_registrations w (closures s - 1)"
    using i assms(2) by (simp add: inv_def)
  show ?thesis
    using l r d h c by (simp add: t onChildExit_fields)
qed

theorem handlers_deregistered_on_exit_witness:
  "child guarded_running \<noteq> None \<and> hostExit guarded_running = None \<and>
   length (cleanupHandlers guarded_running) = 6 \<and>
   cleanupHandlers (step (ChildExit (Some 0) None) guarded_running) = [] \<and>
   listeners (step (ChildExit (Some 0) None) guarded_running) = [(OnSignal SIGINT, Foreign 7)] \<and>
   removed (step (ChildExit (Some 0) None) guarded_running) = own_registrations True 0 \<and>
   step (HostSignal SIGINT KillSent) (step (ChildExit (Some 0) None) guarded_running)
     = step (ChildExit (Some 0) None) guarded_running"
proof -
  have a: "child guarded_running \<noteq> None" and b: "hostExit guarded_running = None"
    and c: "length (cleanupHandlers guarded_running) = 6" and d: "removed guarded_running = []"
    and e: "closures guarded_running = 1"
    by (simp_all add: model_defs)
  show ?thesis
    using a b c d e
      handlers_deregistered_on_exit [OF guarded_running_def a b refl, of "Some 0" None SIGINT KillSent]
    by simp
qed

subsection \<open>C8\<close>

text \<open>
  C8 fails on the code. On Unix \<open>terminate\<close> delivers SIGTERM to the running child of
  pid 100, which sets \<open>killed\<close> on the child object. The child ignores the signal and does
  not exit. When the forced-kill timer expires the wrapper still holds the child, but
  \<open>killed\<close> is true, so the guard of line 178 fails and no SIGKILL is sent.
\<close>

theorem grace_timer_skips_sigkill:
  "timers (run stubborn_running [CallTerminate SIGTERM KillSent]) = [ForceKillTimer] \<and>
   child (run stubborn_running [CallTerminate SIGTERM KillSent, TimerFires 0 KillSent])
     = Some \<lparr>cp_pid = Some 100, cp_killed = True\<rparr> \<and>
   kills (run stubborn_running [CallTerminate SIGTERM KillSent, TimerFires 0 KillSent])
     = [ChildKill Graceful SIGTERM]"
  by (simp add: model_defs)

subsection \<open>C9\<close>

text \<open>
  C9 fails on the code. When \<open>spawn\<close> cannot create the process it returns a child
  without a pid, whose \<open>error\<close> event follows. The listener of that event writes a console
  line and nothing else: the promise of \<open>start\<close> stays pending and \<open>killed\<close> stays false.
\<close>

theorem spawn_failure_never_resolves:
  "exitPromise (run (new bad_options False []) [CallStart SpawnFails, ChildError]) = Some Pending \<and>
   console (run (new bad_options False []) [CallStart SpawnFails, ChildError])
     = [(Stderr, False, ProcessError)] \<and>
   \<not> killed (run (new bad_options False []) [CallStart SpawnFails, ChildError])"
  by (simp add: model_defs)

subsection \<open>C10\<close>

text \<open>
  C10. In every state that the events can reach from a new wrapper, once the promise of
  \<open>start\<close> is resolved the getter \<open>killed\<close> returns true, also when no call of \<open>terminate\<close>
  was ever made: the exit listener sets the latch before it resolves.
\<close>

theorem killed_after_start_resolves:
  assumes "s = run (new opts w fs) evs" and "exitPromise s = Some (Resolved c)"
  shows "killed s"
proof -
  have "inv s" unfolding assms(1) by (rule inv_run) (rule inv_new)
  then have "terminated s" using assms(2) by (simp add: inv_def)
  then show ?thesis by (simp add: killed_def)
qed

theorem killed_after_start_resolves_witness:
  "exitPromise unix_exited = Some (Resolved 0) \<and> kills unix_exited = [] \<and> killed unix_exited"
proof -
  have e: "unix_exited = run (new echo_options False []) [CallStart (SpawnOk 100), ChildExit (Some 0) None]"
    by (simp add: unix_exited_def unix_running_def)
  have a: "exitPromise unix_exited = Some (Resolved 0)" and k: "kills unix_exited = []"
    by (simp_all add: model_defs)
  show ?thesis
    using a k killed_after_start_resolves [OF e a] by simp
qed

end
